theory Spec2Isabelle
  imports Main "HOL-Library.Word"
begin

section \<open>Data model of the pathfinder\<close>

text \<open>
  The search of \<open>PathFinder.cpp\<close> works on heap-allocated \<open>Node\<close> objects that the
  open and the closed vector hold by pointer. The model keeps an explicit store of nodes
  (a list; the address of a node is its index, \<open>new\<close> appends) and the two vectors as
  lists of addresses. Coordinates are \<open>int16\<close> values, kept as integers with the
  narrowing written out; costs are \<open>uint32\<close> values, kept as 32-bit words.
\<close>

type_synonym uint32 = "32 word"

datatype fault = OutOfRange

definition int16 :: "int \<Rightarrow> int" where
  "int16 v = (v + 32768) mod 65536 - 32768"

text \<open>
  Modelled from the spec: the type \<open>GridArray\<close> (its declaration is not among the
  sources), a two-dimensional array of traversability markers indexed [row][column];
  here the list of its rows.
\<close>

type_synonym GridArray = "char list list"

text \<open>
  Modelled from the spec: the struct \<open>Position\<close> (its declaration is not among the
  sources), an integer pair X, Y; the fields are taken to be \<open>int16\<close>, as the
  coordinates that \<open>CalculatePath\<close> receives are.
\<close>

record Position =
  PosX :: int
  PosY :: int

text \<open>
  Modelled from the spec: the class \<open>Node\<close> (its header is not among the sources). A
  search node has a cell coordinate, a G cost, an H cost, the total cost G+H and a
  back-link to its parent; a node is created with both costs zero.
\<close>

record Node =
  m_X :: int
  m_Y :: int
  m_GCost :: uint32
  m_HCost :: uint32
  m_Parent :: "nat option"

text \<open>Modelled from the spec: the constructor of \<open>Node\<close>.\<close>

definition new_Node :: "int \<Rightarrow> int \<Rightarrow> nat option \<Rightarrow> Node" where
  "new_Node x y p = \<lparr>m_X = x, m_Y = y, m_GCost = 0, m_HCost = 0, m_Parent = p\<rparr>"

text \<open>Modelled from the spec: \<open>Node::GetTotalCost\<close>, the sum of the two costs.\<close>

definition GetTotalCost :: "Node \<Rightarrow> uint32" where
  "GetTotalCost n = m_GCost n + m_HCost n"

text \<open>
  The members of a \<open>PathFinder\<close> object that the search uses, together with the store
  of its nodes and the addresses that were passed to \<open>delete\<close>.
\<close>

record PathFinder =
  m_Grid :: GridArray
  m_OpenList :: "nat list"
  m_ClosedList :: "nat list"
  m_Current :: "nat option"
  store :: "Node list"
  freed :: "nat list"

text \<open>The eight directions that the constructor stores: four orthogonal, four diagonal.\<close>

definition m_Directions :: "Position list" where
  "m_Directions =
    [\<lparr>PosX = 0, PosY = 1\<rparr>, \<lparr>PosX = 1, PosY = 0\<rparr>, \<lparr>PosX = 0, PosY = -1\<rparr>, \<lparr>PosX = -1, PosY = 0\<rparr>,
     \<lparr>PosX = -1, PosY = -1\<rparr>, \<lparr>PosX = 1, PosY = 1\<rparr>, \<lparr>PosX = -1, PosY = 1\<rparr>, \<lparr>PosX = 1, PosY = -1\<rparr>]"

text \<open>
  The constructor: both vectors are empty (reserving capacity does not change their
  contents). It leaves \<open>m_Current\<close> unset; the search assigns it before reading it.
\<close>

definition PathFinder_new :: "GridArray \<Rightarrow> PathFinder" where
  "PathFinder_new g =
    \<lparr>m_Grid = g, m_OpenList = [], m_ClosedList = [], m_Current = None, store = [], freed = []\<rparr>"

section \<open>Operations of the pathfinder\<close>

text \<open>
  \<open>m_Grid[y][x]\<close>: the array is indexed row first. An index outside the array is
  undefined behaviour in C++; the model returns the fault \<open>OutOfRange\<close> there.
\<close>

definition in_bounds :: "GridArray \<Rightarrow> int \<Rightarrow> int \<Rightarrow> bool" where
  "in_bounds g x y = (0 \<le> y \<and> nat y < length g \<and> 0 \<le> x \<and> nat x < length (g ! nat y))"

definition grid_at :: "GridArray \<Rightarrow> int \<Rightarrow> int \<Rightarrow> fault + char" where
  "grid_at g y x = (if in_bounds g x y then Inr (g ! nat y ! nat x) else Inl OutOfRange)"

definition CheckValidTile :: "GridArray \<Rightarrow> Position \<Rightarrow> fault + bool" where
  "CheckValidTile g p =
    (case grid_at g (PosY p) (PosX p) of
       Inl f \<Rightarrow> Inl f
     | Inr c \<Rightarrow> if c = CHR ''X'' then Inr False else Inr True)"

text \<open>
  The first node of a vector that lies on the given position, or the null pointer. The
  addresses in the two vectors always refer to nodes of the store (lemma \<open>reach_base\<close>).
\<close>

fun DoesNodeExist :: "Node list \<Rightarrow> nat list \<Rightarrow> Position \<Rightarrow> nat option" where
  "DoesNodeExist h [] p = None"
| "DoesNodeExist h (l_Itr # rest) p =
    (if m_X (h ! l_Itr) = PosX p \<and> m_Y (h ! l_Itr) = PosY p then Some l_Itr
     else DoesNodeExist h rest p)"

text \<open>
  The differences and their sum are computed in \<open>int\<close>, where they cannot overflow for
  \<open>int16\<close> coordinates; the cast to \<open>unsigned int\<close> is the conversion to a word.
\<close>

definition CalculateHeuristic :: "Node \<Rightarrow> int \<Rightarrow> int \<Rightarrow> uint32" where
  "CalculateHeuristic p_Current p_EndX p_EndY =
    word_of_int (10 * (\<bar>m_X p_Current - p_EndX\<bar> + \<bar>m_Y p_Current - p_EndY\<bar>))"

text \<open>
  The selection loop at the head of each iteration: \<open>l_CurrentItr\<close> starts at the first
  element and moves to every element whose total cost is less than or equal to the one
  it points to. The model runs over the indices of the open vector.
\<close>

fun find_lowest :: "Node list \<Rightarrow> nat list \<Rightarrow> nat list \<Rightarrow> nat \<Rightarrow> nat" where
  "find_lowest h ol [] cur = cur"
| "find_lowest h ol (l_Itr # rest) cur =
    find_lowest h ol rest
      (if GetTotalCost (h ! (ol ! l_Itr)) \<le> GetTotalCost (h ! (ol ! cur)) then l_Itr else cur)"

definition select_lowest :: "Node list \<Rightarrow> nat list \<Rightarrow> nat" where
  "select_lowest h ol = find_lowest h ol [0..<length ol] 0"

text \<open>\<open>std::vector::erase\<close> at the position of index \<open>i\<close>.\<close>

definition erase :: "nat \<Rightarrow> 'a list \<Rightarrow> 'a list" where
  "erase i xs = take i xs @ drop (Suc i) xs"

text \<open>
  The body of the loop over the eight directions, for the direction of index \<open>l_I\<close> and
  the current node at address \<open>cur\<close>.
\<close>

definition visit_direction :: "int \<Rightarrow> int \<Rightarrow> nat \<Rightarrow> PathFinder \<Rightarrow> nat \<Rightarrow> fault + PathFinder" where
  "visit_direction p_EndX p_EndY cur pf l_I =
    (let c = store pf ! cur;
         l_FuturePosition =
           \<lparr>PosX = int16 (m_X c + PosX (m_Directions ! l_I)),
            PosY = int16 (m_Y c + PosY (m_Directions ! l_I))\<rparr>
     in case CheckValidTile (m_Grid pf) l_FuturePosition of
          Inl f \<Rightarrow> Inl f
        | Inr valid \<Rightarrow>
            if \<not> valid \<or> DoesNodeExist (store pf) (m_ClosedList pf) l_FuturePosition \<noteq> None
            then Inr pf
            else
              let l_GCost = m_GCost c + (if l_I < 4 then 10 else 14)
              in case DoesNodeExist (store pf) (m_OpenList pf) l_FuturePosition of
                   Some l_Node \<Rightarrow>
                     if l_GCost < m_GCost c
                     then Inr (pf\<lparr>store := (store pf)
                            [l_Node := (store pf ! l_Node)\<lparr>m_GCost := l_GCost, m_Parent := Some cur\<rparr>]\<rparr>)
                     else Inr pf
                 | None \<Rightarrow>
                     Inr (pf\<lparr>store := store pf @
                              [(new_Node (PosX l_FuturePosition) (PosY l_FuturePosition) (Some cur))
                                 \<lparr>m_GCost := l_GCost,
                                  m_HCost := CalculateHeuristic c p_EndX p_EndY\<rparr>],
                            m_OpenList := m_OpenList pf @ [length (store pf)]\<rparr>))"

text \<open>The loop over the directions; it stops at the first fault.\<close>

fun expand :: "int \<Rightarrow> int \<Rightarrow> nat \<Rightarrow> nat list \<Rightarrow> PathFinder \<Rightarrow> fault + PathFinder" where
  "expand p_EndX p_EndY cur [] pf = Inr pf"
| "expand p_EndX p_EndY cur (l_I # rest) pf =
    (case visit_direction p_EndX p_EndY cur pf l_I of
       Inl f \<Rightarrow> Inl f
     | Inr pf' \<Rightarrow> expand p_EndX p_EndY cur rest pf')"

text \<open>
  Moving the selected node (index \<open>i\<close> of the open vector) to the closed vector.
\<close>

definition close_selected :: "nat \<Rightarrow> PathFinder \<Rightarrow> PathFinder" where
  "close_selected i pf =
    pf\<lparr>m_Current := Some (m_OpenList pf ! i),
       m_ClosedList := m_ClosedList pf @ [m_OpenList pf ! i],
       m_OpenList := erase i (m_OpenList pf)\<rparr>"

text \<open>
  The search loop. The first argument bounds the number of times the body runs; the
  result \<open>None\<close> says that this bound was reached before the loop ended.
\<close>

fun search_loop :: "nat \<Rightarrow> int \<Rightarrow> int \<Rightarrow> PathFinder \<Rightarrow> (fault + PathFinder) option" where
  "search_loop 0 p_EndX p_EndY pf = (if m_OpenList pf = [] then Some (Inr pf) else None)"
| "search_loop (Suc n) p_EndX p_EndY pf =
    (if m_OpenList pf = [] then Some (Inr pf)
     else
       let i = select_lowest (store pf) (m_OpenList pf);
           cur = m_OpenList pf ! i
       in if m_X (store pf ! cur) = p_EndX \<and> m_Y (store pf ! cur) = p_EndY
          then Some (Inr (pf\<lparr>m_Current := Some cur\<rparr>))
          else
            (case expand p_EndX p_EndY cur [0..<length m_Directions] (close_selected i pf) of
               Inl f \<Rightarrow> Some (Inl f)
             | Inr pf' \<Rightarrow> search_loop n p_EndX p_EndY pf'))"

text \<open>
  The loop after the search: \<open>while (m_Current != nullptr) m_Current = m_Current->GetParentNode();\<close>
  It stores nothing; its result is the final value of \<open>m_Current\<close>. The first argument
  bounds the number of links followed.
\<close>

fun walk_parents :: "nat \<Rightarrow> Node list \<Rightarrow> nat option \<Rightarrow> nat option option" where
  "walk_parents n h None = Some None"
| "walk_parents 0 h (Some p) = None"
| "walk_parents (Suc n) h (Some p) = walk_parents n h (m_Parent (h ! p))"

text \<open>\<open>CleanUp\<close> deletes the nodes of the closed vector, then those of the open vector.\<close>

definition CleanUp :: "PathFinder \<Rightarrow> PathFinder" where
  "CleanUp pf = pf\<lparr>freed := freed pf @ m_ClosedList pf @ m_OpenList pf\<rparr>"

text \<open>The first statement of \<open>CalculatePath\<close>: a new node for the start is pushed.\<close>

definition push_start :: "PathFinder \<Rightarrow> int \<Rightarrow> int \<Rightarrow> PathFinder" where
  "push_start pf p_StartX p_StartY =
    pf\<lparr>store := store pf @ [new_Node p_StartX p_StartY None],
       m_OpenList := m_OpenList pf @ [length (store pf)]\<rparr>"

text \<open>
  \<open>CalculatePath\<close> has return type \<open>void\<close>: what it leaves behind is the state of the
  object. Both loops get the same bound \<open>fuel\<close>. The time measurement and the log line
  of the source have no effect on the state and are left out.
\<close>

definition CalculatePath ::
  "nat \<Rightarrow> PathFinder \<Rightarrow> int \<Rightarrow> int \<Rightarrow> int \<Rightarrow> int \<Rightarrow> (fault + PathFinder) option" where
  "CalculatePath fuel pf p_StartX p_StartY p_EndX p_EndY =
    (case search_loop fuel p_EndX p_EndY (push_start pf p_StartX p_StartY) of
       None \<Rightarrow> None
     | Some (Inl f) \<Rightarrow> Some (Inl f)
     | Some (Inr pf1) \<Rightarrow>
         (case walk_parents fuel (store pf1) (m_Current pf1) of
            None \<Rightarrow> None
          | Some cur \<Rightarrow> Some (Inr (CleanUp (pf1\<lparr>m_Current := cur\<rparr>)))))"

section \<open>Tile state\<close>

text \<open>
  The members of \<open>TileInstance\<close> as the header declares them: the tile state, the
  maximal height, the entity on the tile (an optional pointer; entities are numbered
  here) and the position of the tile. The mutex is left out. Modelled from the spec: the
  solid-object flag \<open>m_Solid\<close>; in the header the tile refers to an \<open>Item\<close>, a class
  that is not among the sources.
\<close>

record TileInstance =
  m_Solid :: bool
  m_TileState :: int
  m_TileHeight :: int
  m_Habbo :: "nat option"
  m_TileX :: int
  m_TileY :: int


text \<open>
  Modelled from the spec: \<open>TileInstance::TileContainsSolidObject\<close>, declared only: true
  iff a static object occupies the tile.
\<close>

definition TileContainsSolidObject :: "TileInstance \<Rightarrow> bool" where
  "TileContainsSolidObject t = m_Solid t"


text \<open>
  The validity condition in the spec's words, to compare \<open>CheckValidTile\<close> with: the
  grid marker is walkable and the tile occupancy map reports no solid-object flag for
  the cell.
\<close>

definition valid_for_expansion :: "GridArray \<Rightarrow> (Position \<Rightarrow> TileInstance) \<Rightarrow> Position \<Rightarrow> bool" where
  "valid_for_expansion g tiles p =
    (g ! nat (PosY p) ! nat (PosX p) \<noteq> CHR ''X'' \<and> \<not> TileContainsSolidObject (tiles p))"

section \<open>Back-links\<close>

text \<open>
  The cells met on the parent back-links from a node, and the path as the spec
  reconstructs it, to compare the result of \<open>CalculatePath\<close> with: the back-links from
  the node that \<open>m_Current\<close> refers to, reversed. A walk over more links than there are
  nodes is cut off.
\<close>

definition node_pos :: "Node \<Rightarrow> int \<times> int" where
  "node_pos n = (m_X n, m_Y n)"

fun back_links :: "nat \<Rightarrow> Node list \<Rightarrow> nat option \<Rightarrow> (int \<times> int) list" where
  "back_links n h None = []"
| "back_links 0 h (Some p) = []"
| "back_links (Suc n) h (Some p) = node_pos (h ! p) # back_links n h (m_Parent (h ! p))"

definition reconstructed_path :: "PathFinder \<Rightarrow> (int \<times> int) list" where
  "reconstructed_path pf = rev (back_links (length (store pf)) (store pf) (m_Current pf))"

section \<open>Invariants of the search loop\<close>

text \<open>
  \<open>last_minimum h ol n i\<close>: among the first \<open>n\<close> entries of the open vector, entry
  \<open>i\<close> has the lowest total cost and every later entry costs strictly more.
\<close>

definition last_minimum :: "Node list \<Rightarrow> nat list \<Rightarrow> nat \<Rightarrow> nat \<Rightarrow> bool" where
  "last_minimum h ol n i =
    (i < n \<and>
     (\<forall>j<n. GetTotalCost (h ! (ol ! i)) \<le> GetTotalCost (h ! (ol ! j))) \<and>
     (\<forall>j<n. i < j \<longrightarrow> GetTotalCost (h ! (ol ! i)) < GetTotalCost (h ! (ol ! j))))"

text \<open>
  The coordinates of the nodes that a vector of addresses refers to, the validity of the
  addresses in the two vectors, and the property that no coordinate occurs twice in the
  open and the closed vector together.
\<close>

definition positions :: "Node list \<Rightarrow> nat list \<Rightarrow> (int \<times> int) list" where
  "positions h ps = map (\<lambda>p. node_pos (h ! p)) ps"

definition ptrs_ok :: "PathFinder \<Rightarrow> bool" where
  "ptrs_ok pf = (\<forall>p \<in> set (m_OpenList pf @ m_ClosedList pf). p < length (store pf))"

definition no_dup_pos :: "PathFinder \<Rightarrow> bool" where
  "no_dup_pos pf = distinct (positions (store pf) (m_OpenList pf @ m_ClosedList pf))"

text \<open>Every node of the two vectors lies on a cell of the grid.\<close>

definition cells_ok :: "PathFinder \<Rightarrow> bool" where
  "cells_ok pf =
    (\<forall>p \<in> set (m_OpenList pf @ m_ClosedList pf).
       in_bounds (m_Grid pf) (m_X (store pf ! p)) (m_Y (store pf ! p)))"

text \<open>The size of a grid: its number of cells; and the list of its cells.\<close>

definition grid_cells :: "GridArray \<Rightarrow> nat" where
  "grid_cells g = sum_list (map length g)"

definition cell_list :: "GridArray \<Rightarrow> (int \<times> int) list" where
  "cell_list g =
    concat (map (\<lambda>y. map (\<lambda>x. (int x, int y)) [0..<length (g ! y)]) [0..<length g])"

text \<open>
  The back-links: the parent of a closed node was closed before it, and the parent of an
  open node is closed. The current node, once set, is in one of the two vectors.
\<close>

definition parent_in :: "Node list \<Rightarrow> nat list \<Rightarrow> nat \<Rightarrow> bool" where
  "parent_in h ps p = (case m_Parent (h ! p) of None \<Rightarrow> True | Some q \<Rightarrow> q \<in> set ps)"

definition parents_ok :: "PathFinder \<Rightarrow> bool" where
  "parents_ok pf =
    ((\<forall>i<length (m_ClosedList pf).
        parent_in (store pf) (take i (m_ClosedList pf)) (m_ClosedList pf ! i)) \<and>
     (\<forall>p\<in>set (m_OpenList pf). parent_in (store pf) (m_ClosedList pf) p))"

definition current_ok :: "PathFinder \<Rightarrow> bool" where
  "current_ok pf =
    (case m_Current pf of None \<Rightarrow> True
     | Some c \<Rightarrow> c \<in> set (m_OpenList pf @ m_ClosedList pf))"

definition search_inv :: "PathFinder \<Rightarrow> bool" where
  "search_inv pf = (ptrs_ok pf \<and> no_dup_pos pf \<and> cells_ok pf \<and> parents_ok pf \<and> current_ok pf)"

text \<open>
  A cell is interior when its eight neighbours are cells of the grid; a grid is enclosed
  when every walkable cell is interior, as in a room whose walkable cells are surrounded
  by blocked ones.
\<close>

definition interior :: "GridArray \<Rightarrow> int \<Rightarrow> int \<Rightarrow> bool" where
  "interior g x y =
    (\<forall>d\<in>set m_Directions. in_bounds g (int16 (x + PosX d)) (int16 (y + PosY d)))"

definition enclosed :: "GridArray \<Rightarrow> bool" where
  "enclosed g =
    (\<forall>c\<in>set (cell_list g).
       g ! nat (snd c) ! nat (fst c) \<noteq> CHR ''X'' \<longrightarrow> interior g (fst c) (snd c))"

definition interior_ok :: "PathFinder \<Rightarrow> bool" where
  "interior_ok pf =
    (\<forall>p \<in> set (m_OpenList pf @ m_ClosedList pf).
       interior (m_Grid pf) (m_X (store pf ! p)) (m_Y (store pf ! p)))"

text \<open>
  The states at the program points of the search loop of one call of \<open>CalculatePath\<close>
  on a new \<open>PathFinder\<close>: after the start node is pushed, after a node is selected,
  after the selected node has moved from the open to the closed vector, and after each
  visit of a direction from the current node. The relation is closed under these steps
  in any order; it contains every state that the loop passes through (lemma
  \<open>search_loop_reach\<close>).
\<close>

inductive reach :: "GridArray \<Rightarrow> int \<Rightarrow> int \<Rightarrow> int \<Rightarrow> int \<Rightarrow> PathFinder \<Rightarrow> bool"
  for g sx sy ex ey where
  at_start: "reach g sx sy ex ey (push_start (PathFinder_new g) sx sy)"
| at_selection:
    "reach g sx sy ex ey pf \<Longrightarrow> m_OpenList pf \<noteq> [] \<Longrightarrow>
     reach g sx sy ex ey
       (pf\<lparr>m_Current := Some (m_OpenList pf ! select_lowest (store pf) (m_OpenList pf))\<rparr>)"
| at_close:
    "reach g sx sy ex ey pf \<Longrightarrow> m_OpenList pf \<noteq> [] \<Longrightarrow>
     reach g sx sy ex ey (close_selected (select_lowest (store pf) (m_OpenList pf)) pf)"
| at_visit:
    "reach g sx sy ex ey pf \<Longrightarrow> m_Current pf = Some cur \<Longrightarrow>
     visit_direction ex ey cur pf l_I = Inr pf' \<Longrightarrow> l_I < length m_Directions \<Longrightarrow>
     reach g sx sy ex ey pf'"

section \<open>Example inputs\<close>

text \<open>A corridor of three walkable cells inside a border of blocked cells.\<close>

definition corridor :: GridArray where
  "corridor = [''XXXXX'', ''X000X'', ''XXXXX'']"

text \<open>
  The states of a search that starts in the middle of the corridor, with end (3, 1):
  before the left neighbour of (2, 1) is visited, and after the first expansion, when
  both neighbours are open with the same total cost.
\<close>

definition half_expanded :: PathFinder where
  "half_expanded =
    \<lparr>m_Grid = corridor, m_OpenList = [1], m_ClosedList = [0], m_Current = Some 0,
     store = [\<lparr>m_X = 2, m_Y = 1, m_GCost = 0, m_HCost = 0, m_Parent = None\<rparr>,
              \<lparr>m_X = 3, m_Y = 1, m_GCost = 10, m_HCost = 10, m_Parent = Some 0\<rparr>],
     freed = []\<rparr>"

definition tie_state :: PathFinder where
  "tie_state =
    \<lparr>m_Grid = corridor, m_OpenList = [1, 2], m_ClosedList = [0], m_Current = Some 0,
     store = [\<lparr>m_X = 2, m_Y = 1, m_GCost = 0, m_HCost = 0, m_Parent = None\<rparr>,
              \<lparr>m_X = 3, m_Y = 1, m_GCost = 10, m_HCost = 10, m_Parent = Some 0\<rparr>,
              \<lparr>m_X = 1, m_Y = 1, m_GCost = 10, m_HCost = 10, m_Parent = Some 0\<rparr>],
     freed = []\<rparr>"

text \<open>
  The states in which the search loop ends in the corridor from (1, 1): at the node of
  the end (3, 1), and with an empty open vector for the end (0, 0), which no walkable
  cell reaches.
\<close>

definition corridor_goal :: PathFinder where
  "corridor_goal =
    \<lparr>m_Grid = corridor, m_OpenList = [2], m_ClosedList = [0, 1], m_Current = Some 2,
     store = [\<lparr>m_X = 1, m_Y = 1, m_GCost = 0, m_HCost = 0, m_Parent = None\<rparr>,
              \<lparr>m_X = 2, m_Y = 1, m_GCost = 10, m_HCost = 20, m_Parent = Some 0\<rparr>,
              \<lparr>m_X = 3, m_Y = 1, m_GCost = 20, m_HCost = 10, m_Parent = Some 1\<rparr>],
     freed = []\<rparr>"

definition corridor_exhausted :: PathFinder where
  "corridor_exhausted =
    \<lparr>m_Grid = corridor, m_OpenList = [], m_ClosedList = [0, 1, 2], m_Current = Some 2,
     store = [\<lparr>m_X = 1, m_Y = 1, m_GCost = 0, m_HCost = 0, m_Parent = None\<rparr>,
              \<lparr>m_X = 2, m_Y = 1, m_GCost = 10, m_HCost = 20, m_Parent = Some 0\<rparr>,
              \<lparr>m_X = 3, m_Y = 1, m_GCost = 20, m_HCost = 30, m_Parent = Some 1\<rparr>],
     freed = []\<rparr>"

text \<open>A room with a bend, inside a border of blocked cells.\<close>

definition bend :: GridArray where
  "bend = [''XXXXX'', ''XX0XX'', ''X000X'', ''X0XXX'', ''XXXXX'']"

text \<open>
  The state of the search on \<open>bend\<close> from (1, 3) to (3, 2) while the node of (2, 2) is
  expanded; the node of (3, 2) is open.
\<close>

definition bend_state :: PathFinder where
  "bend_state =
    \<lparr>m_Grid = bend, m_OpenList = [4], m_ClosedList = [0, 1, 3, 2], m_Current = Some 2,
     store = [\<lparr>m_X = 1, m_Y = 3, m_GCost = 0, m_HCost = 0, m_Parent = None\<rparr>,
              \<lparr>m_X = 1, m_Y = 2, m_GCost = 10, m_HCost = 30, m_Parent = Some 0\<rparr>,
              \<lparr>m_X = 2, m_Y = 2, m_GCost = 14, m_HCost = 30, m_Parent = Some 0\<rparr>,
              \<lparr>m_X = 2, m_Y = 1, m_GCost = 24, m_HCost = 20, m_Parent = Some 1\<rparr>,
              \<lparr>m_X = 3, m_Y = 2, m_GCost = 38, m_HCost = 20, m_Parent = Some 3\<rparr>],
     freed = []\<rparr>"

text \<open>A tile with a solid object on it, and a free tile.\<close>

definition solid_tile :: TileInstance where
  "solid_tile = \<lparr>m_Solid = True, m_TileState = 0, m_TileHeight = 0, m_Habbo = None, m_TileX = 0, m_TileY = 0\<rparr>"



text \<open>A room of one row and two columns, and an open room of five by five walkable cells.\<close>

definition two_cells :: GridArray where
  "two_cells = [''00'']"

definition open_room :: GridArray where
  "open_room = [''00000'', ''00000'', ''00000'', ''00000'', ''00000'']"


section \<open>Selection of the next node\<close>

lemma find_lowest_append:
  "find_lowest h ol (xs @ ys) c = find_lowest h ol ys (find_lowest h ol xs c)"
  by (induction xs arbitrary: c) simp_all
lemma find_lowest_upt:
  "last_minimum h ol (Suc n) (find_lowest h ol [0..<Suc n] 0)"
proof (induction n)
  case 0
  show ?case by (simp add: last_minimum_def)
next
  case (Suc n)
  let ?c = "find_lowest h ol [0..<Suc n] 0"
  have step: "find_lowest h ol [0..<Suc (Suc n)] 0 =
      (if GetTotalCost (h ! (ol ! Suc n)) \<le> GetTotalCost (h ! (ol ! ?c)) then Suc n else ?c)"
    using find_lowest_append [of h ol "[0..<Suc n]" "[Suc n]" 0] by simp
  show ?case
  proof (cases "GetTotalCost (h ! (ol ! Suc n)) \<le> GetTotalCost (h ! (ol ! ?c))")
    case True
    have "\<forall>j<Suc (Suc n). GetTotalCost (h ! (ol ! Suc n)) \<le> GetTotalCost (h ! (ol ! j))"
    proof (intro allI impI)
      fix j assume "j < Suc (Suc n)"
      show "GetTotalCost (h ! (ol ! Suc n)) \<le> GetTotalCost (h ! (ol ! j))"
      proof (cases "j = Suc n")
        case True then show ?thesis by simp
      next
        case False
        with \<open>j < Suc (Suc n)\<close> have "j < Suc n" by simp
        with Suc.IH have "GetTotalCost (h ! (ol ! ?c)) \<le> GetTotalCost (h ! (ol ! j))"
          unfolding last_minimum_def by blast
        with True show ?thesis by (rule order_trans)
      qed
    qed
    with True step show ?thesis by (simp add: last_minimum_def)
  next
    case False
    then have lt: "GetTotalCost (h ! (ol ! ?c)) < GetTotalCost (h ! (ol ! Suc n))" by simp
    from Suc.IH have c: "?c < Suc n"
      and le: "\<forall>j<Suc n. GetTotalCost (h ! (ol ! ?c)) \<le> GetTotalCost (h ! (ol ! j))"
      and after: "\<forall>j<Suc n. ?c < j \<longrightarrow> GetTotalCost (h ! (ol ! ?c)) < GetTotalCost (h ! (ol ! j))"
      unfolding last_minimum_def by blast+
    have "\<forall>j<Suc (Suc n). GetTotalCost (h ! (ol ! ?c)) \<le> GetTotalCost (h ! (ol ! j))"
      using le lt by (metis less_Suc_eq order_less_imp_le)
    moreover have "\<forall>j<Suc (Suc n). ?c < j \<longrightarrow> GetTotalCost (h ! (ol ! ?c)) < GetTotalCost (h ! (ol ! j))"
      using after lt by (metis less_Suc_eq)
    ultimately show ?thesis using False step c by (simp add: last_minimum_def)
  qed
qed

lemma select_lowest_last_minimum:
  "ol \<noteq> [] \<Longrightarrow> last_minimum h ol (length ol) (select_lowest h ol)"
  using find_lowest_upt [of h ol "length ol - 1"] by (simp add: select_lowest_def)

lemma select_lowest_less: "ol \<noteq> [] \<Longrightarrow> select_lowest h ol < length ol"
  using select_lowest_last_minimum [of ol h] by (simp add: last_minimum_def)

text \<open>
  C4 (as amended): the node selected from a non-empty open vector has the lowest total
  cost G+H of all open nodes, and every node after it in the vector costs strictly more;
  so among nodes that tie for the lowest cost the one latest in iteration order is taken.
\<close>

theorem selection_is_last_lowest:
  assumes "m_OpenList pf \<noteq> []"
  shows "select_lowest (store pf) (m_OpenList pf) < length (m_OpenList pf) \<and>
    (\<forall>j<length (m_OpenList pf).
       GetTotalCost (store pf ! (m_OpenList pf ! select_lowest (store pf) (m_OpenList pf)))
         \<le> GetTotalCost (store pf ! (m_OpenList pf ! j))) \<and>
    (\<forall>j<length (m_OpenList pf). select_lowest (store pf) (m_OpenList pf) < j \<longrightarrow>
       GetTotalCost (store pf ! (m_OpenList pf ! select_lowest (store pf) (m_OpenList pf)))
         < GetTotalCost (store pf ! (m_OpenList pf ! j)))"
  using select_lowest_last_minimum [OF assms, of "store pf"] by (simp add: last_minimum_def)

text \<open>
  C4 as stated fails: after the first expansion in the corridor the two open nodes tie,
  and the selection takes the second one, not the one met first.
\<close>

theorem tie_selects_later_node:
  "expand 3 1 0 [0..<length m_Directions]
      (close_selected 0 (push_start (PathFinder_new corridor) 2 1)) = Inr tie_state \<and>
   GetTotalCost (store tie_state ! (m_OpenList tie_state ! 0)) =
     GetTotalCost (store tie_state ! (m_OpenList tie_state ! 1)) \<and>
   select_lowest (store tie_state) (m_OpenList tie_state) = 1"
  by code_simp

text \<open>
  The amended C4 at the tie in the corridor: the second open node is selected, and its
  total cost is not above the first one's.
\<close>

theorem selection_is_last_lowest_witness:
  "m_OpenList tie_state \<noteq> [] \<and>
   select_lowest (store tie_state) (m_OpenList tie_state) = 1 \<and>
   GetTotalCost (store tie_state ! (m_OpenList tie_state ! 1))
     \<le> GetTotalCost (store tie_state ! (m_OpenList tie_state ! 0))"
proof -
  have ne: "m_OpenList tie_state \<noteq> []" by (simp add: tie_state_def)
  have sel: "select_lowest (store tie_state) (m_OpenList tie_state) = 1" by code_simp
  have len: "0 < length (m_OpenList tie_state)" by (simp add: tie_state_def)
  from selection_is_last_lowest [OF ne] have
    "\<forall>j<length (m_OpenList tie_state).
       GetTotalCost (store tie_state ! (m_OpenList tie_state !
           select_lowest (store tie_state) (m_OpenList tie_state)))
         \<le> GetTotalCost (store tie_state ! (m_OpenList tie_state ! j))"
    by blast
  with len have
    "GetTotalCost (store tie_state ! (m_OpenList tie_state !
         select_lowest (store tie_state) (m_OpenList tie_state)))
       \<le> GetTotalCost (store tie_state ! (m_OpenList tie_state ! 0))"
    by blast
  with ne sel show ?thesis by simp
qed

section \<open>The validity check and the tile state\<close>


text \<open>
  C2 (as amended): for every in-bounds cell position, \<open>CheckValidTile\<close> accepts the
  cell if and only if the cell's grid marker is not \<open>X\<close>. The check reads the grid only:
  no tile state enters it, so neither a solid-object flag nor an occupying entity makes it
  reject a cell.
\<close>

theorem CheckValidTile_grid_only:
  assumes "in_bounds g (PosX p) (PosY p)"
  shows "CheckValidTile g p = Inr (g ! nat (PosY p) ! nat (PosX p) \<noteq> CHR ''X'')"
  using assms by (simp add: CheckValidTile_def grid_at_def)

text \<open>
  The amended C2 at a concrete grid: the cell (1, 0) is in bounds and blocked.
\<close>

theorem CheckValidTile_grid_only_witness:
  "in_bounds [''0X''] 1 0 \<and> CheckValidTile [''0X''] \<lparr>PosX = 1, PosY = 0\<rparr> = Inr False"
proof -
  have b: "in_bounds [''0X''] (PosX \<lparr>PosX = 1, PosY = 0\<rparr>) (PosY \<lparr>PosX = 1, PosY = 0\<rparr>)"
    by (simp add: in_bounds_def)
  show ?thesis using b CheckValidTile_grid_only [OF b] by simp
qed

text \<open>
  C2 as stated fails: a cell whose marker is walkable and whose tile carries the
  solid-object flag is accepted by the check, although the stated condition (walkable
  marker and no solid-object flag) is false there.
\<close>

theorem solid_tile_accepted:
  "in_bounds [''0''] 0 0 \<and>
   CheckValidTile [''0''] \<lparr>PosX = 0, PosY = 0\<rparr> = Inr True \<and>
   \<not> valid_for_expansion [''0''] (\<lambda>p. solid_tile) \<lparr>PosX = 0, PosY = 0\<rparr>"
  by (simp add: in_bounds_def CheckValidTile_def grid_at_def valid_for_expansion_def
      TileContainsSolidObject_def solid_tile_def)





section \<open>Neighbour expansion\<close>


text \<open>The first four directions are the orthogonal ones, the last four the diagonal ones.\<close>

lemma direction_kinds:
  assumes "l_I < length m_Directions"
  shows "(l_I < 4) = (PosX (m_Directions ! l_I) = 0 \<or> PosY (m_Directions ! l_I) = 0)"
proof -
  from assms have "l_I < 8" by (simp add: m_Directions_def)
  then consider "l_I = 0" | "l_I = 1" | "l_I = 2" | "l_I = 3" | "l_I = 4" | "l_I = 5"
    | "l_I = 6" | "l_I = 7"
    by linarith
  then show ?thesis by cases (simp_all add: m_Directions_def)
qed

text \<open>
  C5 (as amended): every node newly created during neighbour expansion gets a G cost
  equal to the current node's G cost plus 10 for an orthogonal step (direction index
  below 4) or 14 for a diagonal step, in \<open>uint32\<close> arithmetic, and an H cost equal to
  10 times the Manhattan distance from the current node's coordinate (the node being
  expanded, which becomes the parent) to the end coordinate.
\<close>

theorem new_node_costs:
  assumes "visit_direction p_EndX p_EndY cur pf l_I = Inr pf'"
    and "length (store pf') \<noteq> length (store pf)" and "l_I < length m_Directions"
  shows "store pf' = store pf @
      [\<lparr>m_X = int16 (m_X (store pf ! cur) + PosX (m_Directions ! l_I)),
        m_Y = int16 (m_Y (store pf ! cur) + PosY (m_Directions ! l_I)),
        m_GCost = m_GCost (store pf ! cur) + (if l_I < 4 then 10 else 14),
        m_HCost = word_of_int
          (10 * (\<bar>m_X (store pf ! cur) - p_EndX\<bar> + \<bar>m_Y (store pf ! cur) - p_EndY\<bar>)),
        m_Parent = Some cur\<rparr>] \<and>
    m_OpenList pf' = m_OpenList pf @ [length (store pf)] \<and>
    (l_I < 4) = (PosX (m_Directions ! l_I) = 0 \<or> PosY (m_Directions ! l_I) = 0)"
proof -
  from assms(1,2) have "store pf' = store pf @
      [\<lparr>m_X = int16 (m_X (store pf ! cur) + PosX (m_Directions ! l_I)),
        m_Y = int16 (m_Y (store pf ! cur) + PosY (m_Directions ! l_I)),
        m_GCost = m_GCost (store pf ! cur) + (if l_I < 4 then 10 else 14),
        m_HCost = word_of_int
          (10 * (\<bar>m_X (store pf ! cur) - p_EndX\<bar> + \<bar>m_Y (store pf ! cur) - p_EndY\<bar>)),
        m_Parent = Some cur\<rparr>] \<and>
    m_OpenList pf' = m_OpenList pf @ [length (store pf)]"
    by (auto simp: visit_direction_def Let_def new_Node_def CalculateHeuristic_def
        split: sum.splits if_splits option.splits)
  with direction_kinds [OF assms(3)] show ?thesis by simp
qed


text \<open>
  The amended C5 at a concrete expansion: in the corridor, with end (3, 1), the node for
  the left neighbour of (2, 1) is created with G cost 10 and H cost 10.
\<close>

theorem new_node_costs_witness:
  "visit_direction 3 1 0 half_expanded 3 = Inr tie_state \<and>
   length (store tie_state) \<noteq> length (store half_expanded) \<and>
   3 < length m_Directions \<and>
   store tie_state = store half_expanded @
     [\<lparr>m_X = 1, m_Y = 1, m_GCost = 10, m_HCost = 10, m_Parent = Some 0\<rparr>]"
proof -
  have v: "visit_direction 3 1 0 half_expanded 3 = Inr tie_state" by code_simp
  have l: "length (store tie_state) \<noteq> length (store half_expanded)"
    by (simp add: tie_state_def half_expanded_def)
  have d: "3 < length m_Directions" by (simp add: m_Directions_def)
  show ?thesis
    using v l d new_node_costs [OF v l d]
    by (simp add: int16_def m_Directions_def half_expanded_def)
qed

text \<open>
  C5 as stated fails: expanding (1, 1) towards (2, 1) with end (3, 1) creates a node whose
  H cost is 20, the distance from (1, 1); the distance from the new node's own position
  would give 10.
\<close>

theorem heuristic_from_parent_position:
  "visit_direction 3 1 0 (close_selected 0 (push_start (PathFinder_new corridor) 1 1)) 1 =
     Inr \<lparr>m_Grid = corridor, m_OpenList = [1], m_ClosedList = [0], m_Current = Some 0,
          store = [\<lparr>m_X = 1, m_Y = 1, m_GCost = 0, m_HCost = 0, m_Parent = None\<rparr>,
                   \<lparr>m_X = 2, m_Y = 1, m_GCost = 10, m_HCost = 20, m_Parent = Some 0\<rparr>],
          freed = []\<rparr> \<and>
   CalculateHeuristic \<lparr>m_X = 2, m_Y = 1, m_GCost = 10, m_HCost = 20, m_Parent = Some 0\<rparr> 3 1 = 10"
  by code_simp

text \<open>
  As long as the G cost of the current node is not about to wrap around, the new G cost
  is never below it, so the branch that updates an open node is never taken: the visit
  of a direction changes no node that exists already.
\<close>

lemma step_cost_no_wrap:
  fixes a :: uint32
  assumes "unat a + 14 < 2 ^ 32"
  shows "\<not> a + (if l_I < (4::nat) then 10 else 14) < a"
proof -
  have "unat a + unat (if l_I < 4 then 10 else 14 :: uint32) < 2 ^ LENGTH(32)"
    using assms by simp
  then have "a \<le> a + (if l_I < 4 then 10 else 14)"
    by (simp only: no_olen_add_nat [symmetric] add.commute)
  then show ?thesis by simp
qed

lemma update_branch_dead:
  assumes "visit_direction ex ey cur pf l_I = Inr pf'"
    and "unat (m_GCost (store pf ! cur)) + 14 < 2 ^ 32"
  shows "take (length (store pf)) (store pf') = store pf"
  using assms(1) step_cost_no_wrap [OF assms(2), of l_I]
  by (auto simp: visit_direction_def Let_def split: sum.splits if_splits option.splits)

text \<open>
  C3 fails on the code. On the grid \<open>bend\<close>, from (1, 3) to (3, 2): when (2, 2) with
  G cost 14 is expanded, the node of its neighbour (3, 2) is open with G cost 38; the new
  G cost 24 is lower, but the code compares it with the current node's G cost, so the
  open node keeps 38 and its old parent until the search ends.
\<close>

theorem missed_update:
  "search_loop 5 3 2 (push_start (PathFinder_new bend) 1 3) =
     Some (Inr (bend_state\<lparr>m_Current := Some 4\<rparr>)) \<and>
   DoesNodeExist (store bend_state) (m_OpenList bend_state) \<lparr>PosX = 3, PosY = 2\<rparr> = Some 4 \<and>
   m_GCost (store bend_state ! 2) + 10 = 24 \<and>
   m_GCost (store bend_state ! 4) = 38 \<and>
   visit_direction 3 2 2 bend_state 1 = Inr bend_state"
  by code_simp

text \<open>
  The visit of C3's failing input leaves the state as it is: the open node of (3, 2)
  still has G cost 38 and the parent (2, 1) afterwards.
\<close>

theorem missed_update_witness:
  "visit_direction 3 2 2 bend_state 1 = Inr bend_state \<and>
   m_GCost (store bend_state ! 4) = 38 \<and> m_Parent (store bend_state ! 4) = Some 3"
  using missed_update by (simp add: bend_state_def)

text \<open>
  C7 fails on the code. On a grid of one row and two columns, from (0, 0) to (1, 0), both
  in bounds: the first direction gives the neighbour (0, 1), which is looked up in the
  grid with no bounds check.
\<close>

theorem neighbour_lookup_out_of_range:
  "in_bounds [''00''] 0 0 \<and> in_bounds [''00''] 1 0 \<and>
   CalculatePath 3 (PathFinder_new [''00'']) 0 0 1 0 = Some (Inl OutOfRange)"
  by code_simp

section \<open>Start equal to end\<close>

text \<open>
  C6 (as amended): with start equal to end the search stops at its first selection: no
  neighbour is expanded and no grid cell is read (the closed vector stays empty and the
  start node is the only node), whatever the grid and the cell; the walk over the
  back-links ends with a null current node, the node is destroyed, and no path value is
  produced.
\<close>

theorem start_equals_end:
  "CalculatePath (Suc n) (PathFinder_new g) sx sy sx sy =
     Some (Inr \<lparr>m_Grid = g, m_OpenList = [0], m_ClosedList = [], m_Current = None,
                store = [new_Node sx sy None], freed = [0]\<rparr>)"
  by (simp add: CalculatePath_def push_start_def PathFinder_new_def select_lowest_def
      new_Node_def CleanUp_def)

text \<open>
  C6 as stated fails: after the call for start = end = (0, 0) the back-links that the
  object still refers to give the empty sequence, not the single cell.
\<close>

theorem start_equals_end_no_path:
  "map_option (map_sum id reconstructed_path) (CalculatePath 1 (PathFinder_new [''0'']) 0 0 0 0) =
     Some (Inr [])"
  by code_simp

section \<open>Preservation of the invariants\<close>

lemma DoesNodeExist_None_iff:
  "(DoesNodeExist h ps p = None) = ((PosX p, PosY p) \<notin> set (positions h ps))"
  by (induction ps) (auto simp: positions_def node_pos_def)

lemma DoesNodeExist_SomeD:
  "DoesNodeExist h ps p = Some l \<Longrightarrow> l \<in> set ps \<and> node_pos (h ! l) = (PosX p, PosY p)"
  by (induction ps) (auto simp: node_pos_def split: if_splits)

lemma CheckValidTile_InrD: "CheckValidTile g p = Inr v \<Longrightarrow> in_bounds g (PosX p) (PosY p)"
  by (auto simp: CheckValidTile_def grid_at_def split: if_splits sum.splits)

lemma CheckValidTile_TrueD:
  "CheckValidTile g p = Inr True \<Longrightarrow> g ! nat (PosY p) ! nat (PosX p) \<noteq> CHR ''X''"
  by (auto simp: CheckValidTile_def grid_at_def split: if_splits sum.splits)

lemma positions_append: "positions h (ps @ qs) = positions h ps @ positions h qs"
  by (simp add: positions_def)

lemma positions_Cons: "positions h (p # ps) = node_pos (h ! p) # positions h ps"
  by (simp add: positions_def)

lemma positions_update:
  "l < length h \<Longrightarrow> node_pos n' = node_pos (h ! l) \<Longrightarrow> positions (h[l := n']) ps = positions h ps"
  by (auto simp: positions_def nth_list_update)

lemma positions_store_append:
  "\<forall>p\<in>set ps. p < length h \<Longrightarrow> positions (h @ [n]) ps = positions h ps"
  by (auto simp: positions_def nth_append)

text \<open>The three effects that the visit of one direction can have.\<close>

lemma visit_direction_cases [consumes 1, case_names same update fresh]:
  assumes "visit_direction ex ey cur pf i = Inr pf'"
  obtains "pf' = pf"
  | l n' where "l \<in> set (m_OpenList pf)" and "pf' = pf\<lparr>store := (store pf)[l := n']\<rparr>"
      and "node_pos n' = node_pos (store pf ! l)" and "m_Parent n' = Some cur"
  | n where "pf' = pf\<lparr>store := store pf @ [n], m_OpenList := m_OpenList pf @ [length (store pf)]\<rparr>"
      and "node_pos n \<notin> set (positions (store pf) (m_OpenList pf @ m_ClosedList pf))"
      and "in_bounds (m_Grid pf) (m_X n) (m_Y n)" and "m_Parent n = Some cur"
      and "m_Grid pf ! nat (m_Y n) ! nat (m_X n) \<noteq> CHR ''X''"
proof -
  let ?c = "store pf ! cur"
  let ?fut = "\<lparr>PosX = int16 (m_X ?c + PosX (m_Directions ! i)),
               PosY = int16 (m_Y ?c + PosY (m_Directions ! i))\<rparr>"
  from assms obtain valid where cv: "CheckValidTile (m_Grid pf) ?fut = Inr valid"
    by (auto simp: visit_direction_def Let_def split: sum.splits)
  show thesis
  proof (cases "\<not> valid \<or> DoesNodeExist (store pf) (m_ClosedList pf) ?fut \<noteq> None")
    case True
    with assms cv have "pf' = pf" by (auto simp: visit_direction_def Let_def)
    then show thesis by (rule that(1))
  next
    case False
    then have cl: "DoesNodeExist (store pf) (m_ClosedList pf) ?fut = None" by simp
    show thesis
    proof (cases "DoesNodeExist (store pf) (m_OpenList pf) ?fut")
      case None
      let ?n = "(new_Node (PosX ?fut) (PosY ?fut) (Some cur))
                  \<lparr>m_GCost := m_GCost ?c + (if i < 4 then 10 else 14),
                   m_HCost := CalculateHeuristic ?c ex ey\<rparr>"
      from assms cv False None
      have eq: "pf' = pf\<lparr>store := store pf @ [?n],
                         m_OpenList := m_OpenList pf @ [length (store pf)]\<rparr>"
        by (simp add: visit_direction_def Let_def)
      have pos: "node_pos ?n = (PosX ?fut, PosY ?fut)" by (simp add: node_pos_def new_Node_def)
      from None cl have "node_pos ?n \<notin> set (positions (store pf) (m_OpenList pf @ m_ClosedList pf))"
        unfolding pos DoesNodeExist_None_iff positions_append by simp
      moreover from CheckValidTile_InrD [OF cv] have "in_bounds (m_Grid pf) (m_X ?n) (m_Y ?n)"
        by (simp add: new_Node_def)
      moreover have "m_Parent ?n = Some cur" by (simp add: new_Node_def)
      moreover have "m_Grid pf ! nat (m_Y ?n) ! nat (m_X ?n) \<noteq> CHR ''X''"
      proof -
        from cv False have "CheckValidTile (m_Grid pf) ?fut = Inr True" by simp
        from CheckValidTile_TrueD [OF this] show ?thesis by (simp add: new_Node_def)
      qed
      ultimately show thesis using eq by (rule that(3) [rotated])
    next
      case (Some l)
      from DoesNodeExist_SomeD [OF Some] have l: "l \<in> set (m_OpenList pf)" by simp
      show thesis
      proof (cases "m_GCost ?c + (if i < 4 then 10 else 14) < m_GCost ?c")
        case True
        let ?n = "(store pf ! l)\<lparr>m_GCost := m_GCost ?c + (if i < 4 then 10 else 14),
                                 m_Parent := Some cur\<rparr>"
        from assms cv False Some True have "pf' = pf\<lparr>store := (store pf)[l := ?n]\<rparr>"
          by (simp add: visit_direction_def Let_def)
        moreover have "node_pos ?n = node_pos (store pf ! l)" by (simp add: node_pos_def)
        moreover have "m_Parent ?n = Some cur" by simp
        ultimately show thesis using l by (rule that(2) [rotated])
      next
        case nolower: False
        with assms cv False Some have "pf' = pf" by (simp add: visit_direction_def Let_def)
        then show thesis by (rule that(1))
      qed
    qed
  qed
qed

lemma visit_keeps_base:
  assumes "visit_direction ex ey cur pf i = Inr pf'" and "ptrs_ok pf" and "no_dup_pos pf"
  shows "ptrs_ok pf' \<and> no_dup_pos pf'"
  using assms(1)
proof (cases rule: visit_direction_cases)
  case same
  with assms show ?thesis by simp
next
  case (update l n')
  from update(1) assms(2) have "l < length (store pf)" by (simp add: ptrs_ok_def)
  with update assms(2,3) show ?thesis
    by (simp add: ptrs_ok_def no_dup_pos_def positions_update)
next
  case (fresh n)
  from assms(2) have old: "\<forall>p\<in>set (m_OpenList pf @ m_ClosedList pf). p < length (store pf)"
    by (simp add: ptrs_ok_def)
  then have keepO: "positions (store pf @ [n]) (m_OpenList pf) = positions (store pf) (m_OpenList pf)"
    and keepC: "positions (store pf @ [n]) (m_ClosedList pf) = positions (store pf) (m_ClosedList pf)"
    by (simp_all add: positions_store_append)
  have "ptrs_ok pf'" using old fresh(1) by (auto simp: ptrs_ok_def intro: less_SucI)
  moreover have "no_dup_pos pf'"
    using assms(3) fresh(2) unfolding no_dup_pos_def fresh(1)
    by (auto simp: positions_append positions_Cons keepO keepC)
  ultimately show ?thesis ..
qed

lemma erase_split:
  assumes "i < length xs"
  obtains A B where "xs = A @ xs ! i # B" and "erase i xs = A @ B"
proof
  show "xs = take i xs @ xs ! i # drop (Suc i) xs" using assms by (rule id_take_nth_drop)
  show "erase i xs = take i xs @ drop (Suc i) xs" by (simp add: erase_def)
qed

lemma close_keeps_base:
  assumes "i < length (m_OpenList pf)" and "ptrs_ok pf" and "no_dup_pos pf"
  shows "ptrs_ok (close_selected i pf) \<and> no_dup_pos (close_selected i pf)"
proof -
  from assms(1) obtain A B where
    xs: "m_OpenList pf = A @ m_OpenList pf ! i # B" and er: "erase i (m_OpenList pf) = A @ B"
    by (rule erase_split)
  define x where "x = m_OpenList pf ! i"
  from xs have xs': "m_OpenList pf = A @ x # B" by (simp add: x_def)
  have "ptrs_ok (close_selected i pf)"
    using assms(2) er unfolding ptrs_ok_def close_selected_def x_def [symmetric]
    by (subst (asm) xs') auto
  moreover have "no_dup_pos (close_selected i pf)"
    using assms(3) er unfolding no_dup_pos_def close_selected_def x_def [symmetric]
    by (subst (asm) xs') (auto simp: positions_def)
  ultimately show ?thesis ..
qed

lemma start_base: "ptrs_ok (push_start (PathFinder_new g) sx sy) \<and>
    no_dup_pos (push_start (PathFinder_new g) sx sy)"
  by (simp add: ptrs_ok_def no_dup_pos_def push_start_def PathFinder_new_def positions_def)

lemma reach_base: "reach g sx sy ex ey pf \<Longrightarrow> ptrs_ok pf \<and> no_dup_pos pf"
proof (induction rule: reach.induct)
  case at_start
  show ?case by (rule start_base)
next
  case (at_selection pf)
  then show ?case by (simp add: ptrs_ok_def no_dup_pos_def)
next
  case (at_close pf)
  then show ?case by (simp add: close_keeps_base select_lowest_less)
next
  case (at_visit pf cur pf' l_I)
  then show ?case using visit_keeps_base by blast
qed

text \<open>
  C10: at every point of the search loop (after the start node is pushed, after a
  selection, after the selected node has moved from the open to the closed vector, after
  the visit of a direction) no two nodes of the open and the closed vector together have
  the same (x, y) coordinate.
\<close>

theorem no_duplicate_coordinates:
  assumes "reach g sx sy ex ey pf"
  shows "distinct (map (\<lambda>p. (m_X (store pf ! p), m_Y (store pf ! p)))
                    (m_OpenList pf @ m_ClosedList pf))"
  using reach_base [OF assms] by (simp add: no_dup_pos_def positions_def node_pos_def)

lemma visit_frame:
  assumes "visit_direction ex ey cur pf i = Inr pf'"
  shows "m_ClosedList pf' = m_ClosedList pf \<and> m_Grid pf' = m_Grid pf \<and>
    m_Current pf' = m_Current pf \<and> freed pf' = freed pf \<and>
    set (m_OpenList pf) \<subseteq> set (m_OpenList pf')"
  using assms by (cases rule: visit_direction_cases) auto

lemma visit_keeps_cells:
  assumes "visit_direction ex ey cur pf i = Inr pf'" and "ptrs_ok pf" and "cells_ok pf"
  shows "cells_ok pf'"
  using assms(1)
proof (cases rule: visit_direction_cases)
  case same
  with assms show ?thesis by simp
next
  case (update l n')
  from update(1) assms(2) have l: "l < length (store pf)" by (simp add: ptrs_ok_def)
  from update(3) have "m_X n' = m_X (store pf ! l)" "m_Y n' = m_Y (store pf ! l)"
    by (simp_all add: node_pos_def)
  with l assms(3) show ?thesis
    unfolding cells_ok_def update(2) by (auto simp: nth_list_update)
next
  case (fresh n)
  from assms(2) have old: "\<forall>p\<in>set (m_OpenList pf @ m_ClosedList pf). p < length (store pf)"
    by (simp add: ptrs_ok_def)
  with assms(3) fresh(3) show ?thesis
    unfolding cells_ok_def fresh(1) by (auto simp: nth_append)
qed

lemma close_keeps_cells:
  assumes "i < length (m_OpenList pf)" and "cells_ok pf"
  shows "cells_ok (close_selected i pf)"
proof -
  from assms(1) obtain A B where
    xs: "m_OpenList pf = A @ m_OpenList pf ! i # B" and er: "erase i (m_OpenList pf) = A @ B"
    by (rule erase_split)
  define x where "x = m_OpenList pf ! i"
  from xs have xs': "m_OpenList pf = A @ x # B" by (simp add: x_def)
  show ?thesis
    using assms(2) er unfolding cells_ok_def close_selected_def x_def [symmetric]
    by (subst (asm) xs') auto
qed

lemma open_closed_disjoint:
  assumes "no_dup_pos pf"
  shows "set (m_OpenList pf) \<inter> set (m_ClosedList pf) = {}"
proof -
  from assms have "distinct (m_OpenList pf @ m_ClosedList pf)"
    unfolding no_dup_pos_def positions_def by (simp only: distinct_map)
  then show ?thesis by simp
qed

lemma visit_keeps_parents:
  assumes "visit_direction ex ey cur pf i = Inr pf'" and "ptrs_ok pf" and "no_dup_pos pf"
    and "parents_ok pf" and "cur \<in> set (m_ClosedList pf)"
  shows "parents_ok pf'"
  using assms(1)
proof (cases rule: visit_direction_cases)
  case same
  with assms show ?thesis by simp
next
  case (update l n')
  from update(1) assms(2) have l: "l < length (store pf)" by (simp add: ptrs_ok_def)
  from update(1) open_closed_disjoint [OF assms(3)] have nl: "l \<notin> set (m_ClosedList pf)" by blast
  have closed: "parent_in ((store pf)[l := n']) (take k (m_ClosedList pf)) (m_ClosedList pf ! k)"
    if "k < length (m_ClosedList pf)" for k
  proof -
    from that nl have "m_ClosedList pf ! k \<noteq> l" by (metis nth_mem)
    with that assms(4) show ?thesis by (simp add: parents_ok_def parent_in_def)
  qed
  have "open": "parent_in ((store pf)[l := n']) (m_ClosedList pf) p" if "p \<in> set (m_OpenList pf)" for p
  proof (cases "p = l")
    case True
    with l update(4) assms(5) show ?thesis by (simp add: parent_in_def)
  next
    case False
    with that assms(4) show ?thesis by (simp add: parents_ok_def parent_in_def)
  qed
  from closed "open" show ?thesis unfolding parents_ok_def update(2) by simp
next
  case (fresh n)
  from assms(2) have old: "\<forall>p\<in>set (m_OpenList pf @ m_ClosedList pf). p < length (store pf)"
    by (simp add: ptrs_ok_def)
  have closed: "parent_in (store pf @ [n]) (take k (m_ClosedList pf)) (m_ClosedList pf ! k)"
    if "k < length (m_ClosedList pf)" for k
  proof -
    from that old have "m_ClosedList pf ! k < length (store pf)" by simp
    with that assms(4) show ?thesis by (simp add: parents_ok_def parent_in_def nth_append)
  qed
  have "open": "parent_in (store pf @ [n]) (m_ClosedList pf) p"
    if "p \<in> set (m_OpenList pf @ [length (store pf)])" for p
  proof (cases "p = length (store pf)")
    case True
    with fresh(4) assms(5) show ?thesis by (simp add: parent_in_def)
  next
    case False
    with that have p: "p \<in> set (m_OpenList pf)" by simp
    with old have "p < length (store pf)" by simp
    with p assms(4) show ?thesis by (simp add: parents_ok_def parent_in_def nth_append)
  qed
  from closed "open" show ?thesis unfolding parents_ok_def fresh(1) by simp
qed

lemma close_keeps_parents:
  assumes "i < length (m_OpenList pf)" and "parents_ok pf"
  shows "parents_ok (close_selected i pf)"
proof -
  define x where "x = m_OpenList pf ! i"
  from assms(1) have xo: "x \<in> set (m_OpenList pf)" by (simp add: x_def)
  have sub: "set (erase i (m_OpenList pf)) \<subseteq> set (m_OpenList pf)"
    unfolding erase_def by (auto dest: in_set_takeD in_set_dropD)
  have closed: "parent_in (store pf) (take k (m_ClosedList pf @ [x])) ((m_ClosedList pf @ [x]) ! k)"
    if "k < Suc (length (m_ClosedList pf))" for k
  proof (cases "k < length (m_ClosedList pf)")
    case True
    with assms(2) show ?thesis by (simp add: parents_ok_def nth_append)
  next
    case False
    with that have "k = length (m_ClosedList pf)" by simp
    with assms(2) xo show ?thesis by (simp add: parents_ok_def)
  qed
  have "open": "parent_in (store pf) (m_ClosedList pf @ [x]) p" if "p \<in> set (erase i (m_OpenList pf))" for p
  proof -
    from that sub have "p \<in> set (m_OpenList pf)" by blast
    with assms(2) have "parent_in (store pf) (m_ClosedList pf) p" by (simp add: parents_ok_def)
    then show ?thesis by (auto simp: parent_in_def split: option.splits)
  qed
  from closed "open" show ?thesis
    unfolding parents_ok_def close_selected_def x_def [symmetric] by simp
qed

lemma visit_keeps_inv:
  assumes "visit_direction ex ey cur pf i = Inr pf'" and "search_inv pf"
    and "cur \<in> set (m_ClosedList pf)"
  shows "search_inv pf'"
proof -
  from assms(2) have b: "ptrs_ok pf" "no_dup_pos pf" and c: "cells_ok pf"
    and p: "parents_ok pf" and cu: "current_ok pf"
    by (simp_all add: search_inv_def)
  from visit_frame [OF assms(1)] cu have "current_ok pf'"
    by (auto simp: current_ok_def split: option.splits)
  with visit_keeps_base [OF assms(1) b] visit_keeps_cells [OF assms(1) b(1) c]
    visit_keeps_parents [OF assms(1) b p assms(3)]
  show ?thesis by (simp add: search_inv_def)
qed

lemma expand_keeps_inv:
  assumes "expand ex ey cur ds pf = Inr pf'" and "search_inv pf"
    and "cur \<in> set (m_ClosedList pf)"
  shows "search_inv pf' \<and> m_ClosedList pf' = m_ClosedList pf \<and> m_Grid pf' = m_Grid pf \<and>
    m_Current pf' = m_Current pf \<and> freed pf' = freed pf"
  using assms
proof (induction ds arbitrary: pf)
  case Nil
  then show ?case by simp
next
  case (Cons d ds)
  from Cons.prems(1) obtain pf1 where
    v: "visit_direction ex ey cur pf d = Inr pf1" and e: "expand ex ey cur ds pf1 = Inr pf'"
    by (auto split: sum.splits)
  from visit_keeps_inv [OF v Cons.prems(2,3)] have i1: "search_inv pf1" .
  from visit_frame [OF v] have f: "m_ClosedList pf1 = m_ClosedList pf" "m_Grid pf1 = m_Grid pf"
    "m_Current pf1 = m_Current pf" "freed pf1 = freed pf" by simp_all
  with Cons.prems(3) have "cur \<in> set (m_ClosedList pf1)" by simp
  from Cons.IH [OF e i1 this] f show ?case by simp
qed

lemma close_keeps_inv:
  assumes "i < length (m_OpenList pf)" and "search_inv pf"
  shows "search_inv (close_selected i pf)"
proof -
  from assms(2) have b: "ptrs_ok pf" "no_dup_pos pf" and c: "cells_ok pf"
    and p: "parents_ok pf"
    by (simp_all add: search_inv_def)
  have "current_ok (close_selected i pf)" by (simp add: current_ok_def close_selected_def)
  with close_keeps_base [OF assms(1) b] close_keeps_cells [OF assms(1) c]
    close_keeps_parents [OF assms(1) p]
  show ?thesis by (simp add: search_inv_def)
qed

lemma start_inv:
  assumes "in_bounds g sx sy"
  shows "search_inv (push_start (PathFinder_new g) sx sy)"
  using assms
  by (simp add: search_inv_def ptrs_ok_def no_dup_pos_def cells_ok_def parents_ok_def
      current_ok_def parent_in_def push_start_def PathFinder_new_def positions_def new_Node_def)

section \<open>Termination of the search loop\<close>

lemma length_cell_list: "length (cell_list g) = grid_cells g"
proof -
  have "map (\<lambda>y. length (g ! y)) [0..<length g] = map length (map (\<lambda>y. g ! y) [0..<length g])"
    by simp
  also have "\<dots> = map length g" by (simp only: map_nth)
  finally show ?thesis
    by (simp add: cell_list_def grid_cells_def length_concat comp_def)
qed

lemma in_bounds_cell_list:
  assumes "in_bounds g x y"
  shows "(x, y) \<in> set (cell_list g)"
proof -
  from assms obtain xn yn where x: "x = int xn" and y: "y = int yn"
    by (metis in_bounds_def nonneg_int_cases)
  from assms have yn: "yn < length g" and xn: "xn < length (g ! yn)"
    by (simp_all add: in_bounds_def x y)
  from xn have "(int xn, int yn) \<in> set (map (\<lambda>x. (int x, int yn)) [0..<length (g ! yn)])"
    by simp
  moreover from yn have "map (\<lambda>x. (int x, int yn)) [0..<length (g ! yn)]
      \<in> set (map (\<lambda>y. map (\<lambda>x. (int x, int y)) [0..<length (g ! y)]) [0..<length g])"
    by simp
  ultimately have "(int xn, int yn) \<in> set (cell_list g)"
    unfolding cell_list_def set_concat by (rule UN_I [rotated])
  then show ?thesis by (simp add: x y)
qed

lemma nodes_bounded:
  assumes "no_dup_pos pf" and "cells_ok pf"
  shows "length (m_OpenList pf) + length (m_ClosedList pf) \<le> grid_cells (m_Grid pf)"
proof -
  let ?P = "positions (store pf) (m_OpenList pf @ m_ClosedList pf)"
  from assms(2) have "set ?P \<subseteq> set (cell_list (m_Grid pf))"
    by (auto simp: cells_ok_def positions_def node_pos_def intro: in_bounds_cell_list)
  then have "card (set ?P) \<le> card (set (cell_list (m_Grid pf)))"
    by (intro card_mono) simp_all
  also have "\<dots> \<le> length (cell_list (m_Grid pf))" by (rule card_length)
  finally have "card (set ?P) \<le> grid_cells (m_Grid pf)" by (simp add: length_cell_list)
  moreover from assms(1) have "card (set ?P) = length ?P"
    unfolding no_dup_pos_def by (rule distinct_card)
  ultimately show ?thesis by (simp add: positions_def)
qed

lemma closed_bounded:
  "search_inv pf \<Longrightarrow> length (m_ClosedList pf) \<le> grid_cells (m_Grid pf)"
  using nodes_bounded [of pf] by (simp add: search_inv_def)

lemma close_selected_frame:
  "m_ClosedList (close_selected i pf) = m_ClosedList pf @ [m_OpenList pf ! i] \<and>
   m_Grid (close_selected i pf) = m_Grid pf \<and> freed (close_selected i pf) = freed pf \<and>
   store (close_selected i pf) = store pf"
  by (simp add: close_selected_def)

lemma search_loop_empty: "m_OpenList pf = [] \<Longrightarrow> search_loop n ex ey pf = Some (Inr pf)"
  by (cases n) simp_all

lemma search_loop_goal:
  assumes "m_OpenList pf \<noteq> []"
    and "m_X (store pf ! (m_OpenList pf ! select_lowest (store pf) (m_OpenList pf))) = ex \<and>
         m_Y (store pf ! (m_OpenList pf ! select_lowest (store pf) (m_OpenList pf))) = ey"
  shows "search_loop (Suc n) ex ey pf =
    Some (Inr (pf\<lparr>m_Current := Some (m_OpenList pf ! select_lowest (store pf) (m_OpenList pf))\<rparr>))"
  using assms by (simp add: Let_def)

lemma search_loop_step:
  assumes "m_OpenList pf \<noteq> []"
    and "\<not> (m_X (store pf ! (m_OpenList pf ! select_lowest (store pf) (m_OpenList pf))) = ex \<and>
            m_Y (store pf ! (m_OpenList pf ! select_lowest (store pf) (m_OpenList pf))) = ey)"
  shows "search_loop (Suc n) ex ey pf =
    (case expand ex ey (m_OpenList pf ! select_lowest (store pf) (m_OpenList pf))
            [0..<length m_Directions]
            (close_selected (select_lowest (store pf) (m_OpenList pf)) pf) of
       Inl f \<Rightarrow> Some (Inl f)
     | Inr pf' \<Rightarrow> search_loop n ex ey pf')"
proof -
  let ?cur = "m_OpenList pf ! select_lowest (store pf) (m_OpenList pf)"
  have "search_loop (Suc n) ex ey pf =
    (if m_X (store pf ! ?cur) = ex \<and> m_Y (store pf ! ?cur) = ey
     then Some (Inr (pf\<lparr>m_Current := Some ?cur\<rparr>))
     else (case expand ex ey ?cur [0..<length m_Directions]
                  (close_selected (select_lowest (store pf) (m_OpenList pf)) pf) of
             Inl f \<Rightarrow> Some (Inl f)
           | Inr pf' \<Rightarrow> search_loop n ex ey pf'))"
    using assms(1) by (simp add: Let_def)
  also have "\<dots> = (case expand ex ey ?cur [0..<length m_Directions]
                  (close_selected (select_lowest (store pf) (m_OpenList pf)) pf) of
             Inl f \<Rightarrow> Some (Inl f)
           | Inr pf' \<Rightarrow> search_loop n ex ey pf')"
    using assms(2) by (rule if_not_P)
  finally show ?thesis .
qed

lemma search_loop_ends:
  assumes "search_inv pf" and "grid_cells (m_Grid pf) < n + length (m_ClosedList pf)"
  shows "\<exists>r. search_loop n ex ey pf = Some r"
  using assms
proof (induction n arbitrary: pf)
  case 0
  with closed_bounded [of pf] show ?case by simp
next
  case (Suc n)
  show ?case
  proof (cases "m_OpenList pf = []")
    case True
    then show ?thesis by (simp add: search_loop_empty)
  next
    case False
    let ?i = "select_lowest (store pf) (m_OpenList pf)"
    let ?cur = "m_OpenList pf ! ?i"
    from False have i: "?i < length (m_OpenList pf)" by (rule select_lowest_less)
    show ?thesis
    proof (cases "m_X (store pf ! ?cur) = ex \<and> m_Y (store pf ! ?cur) = ey")
      case True
      with False show ?thesis by (simp add: search_loop_goal)
    next
      case notend: False
      show ?thesis
      proof (cases "expand ex ey ?cur [0..<length m_Directions] (close_selected ?i pf)")
        case (Inl f)
        with search_loop_step [OF False notend, of n] show ?thesis by simp
      next
        case (Inr pf2)
        have inv1: "search_inv (close_selected ?i pf)" using i Suc.prems(1) by (rule close_keeps_inv)
        have cur: "?cur \<in> set (m_ClosedList (close_selected ?i pf))"
          by (simp add: close_selected_def)
        from expand_keeps_inv [OF Inr inv1 cur] close_selected_frame [of ?i pf]
        have inv2: "search_inv pf2"
          and len: "length (m_ClosedList pf2) = Suc (length (m_ClosedList pf))"
          and g: "m_Grid pf2 = m_Grid pf"
          by simp_all
        from Suc.prems(2) len g have "grid_cells (m_Grid pf2) < n + length (m_ClosedList pf2)"
          by simp
        from Suc.IH [OF inv2 this] obtain r where "search_loop n ex ey pf2 = Some r" ..
        with search_loop_step [OF False notend, of n] Inr show ?thesis by simp
      qed
    qed
  qed
qed

lemma search_loop_state:
  assumes "search_loop n ex ey pf = Some (Inr pf')" and "search_inv pf"
  shows "search_inv pf' \<and> m_Grid pf' = m_Grid pf \<and> freed pf' = freed pf \<and>
    (m_OpenList pf' = [] \<or>
     (\<exists>c. m_Current pf' = Some c \<and> m_X (store pf' ! c) = ex \<and> m_Y (store pf' ! c) = ey))"
  using assms
proof (induction n arbitrary: pf)
  case 0
  then show ?case by (simp split: if_splits)
next
  case (Suc n)
  show ?case
  proof (cases "m_OpenList pf = []")
    case True
    with Suc.prems show ?thesis by (simp add: search_loop_empty)
  next
    case False
    let ?i = "select_lowest (store pf) (m_OpenList pf)"
    let ?cur = "m_OpenList pf ! ?i"
    from False have i: "?i < length (m_OpenList pf)" by (rule select_lowest_less)
    show ?thesis
    proof (cases "m_X (store pf ! ?cur) = ex \<and> m_Y (store pf ! ?cur) = ey")
      case True
      with False Suc.prems(1) have eq: "pf' = pf\<lparr>m_Current := Some ?cur\<rparr>"
        by (simp add: search_loop_goal)
      from i have "?cur \<in> set (m_OpenList pf)" by simp
      with Suc.prems(2) have "search_inv (pf\<lparr>m_Current := Some ?cur\<rparr>)"
        by (simp add: search_inv_def ptrs_ok_def no_dup_pos_def cells_ok_def parents_ok_def
            current_ok_def)
      with eq True show ?thesis by simp
    next
      case notend: False
      show ?thesis
      proof (cases "expand ex ey ?cur [0..<length m_Directions] (close_selected ?i pf)")
        case (Inl f)
        with search_loop_step [OF False notend, of n] Suc.prems(1) show ?thesis by simp
      next
        case (Inr pf2)
        have inv1: "search_inv (close_selected ?i pf)" using i Suc.prems(2) by (rule close_keeps_inv)
        have cur: "?cur \<in> set (m_ClosedList (close_selected ?i pf))"
          by (simp add: close_selected_def)
        from expand_keeps_inv [OF Inr inv1 cur] close_selected_frame [of ?i pf]
        have inv2: "search_inv pf2" and g: "m_Grid pf2 = m_Grid pf" and f: "freed pf2 = freed pf"
          by simp_all
        from search_loop_step [OF False notend, of n] Inr Suc.prems(1)
        have "search_loop n ex ey pf2 = Some (Inr pf')" by simp
        from Suc.IH [OF this inv2] g f show ?thesis by simp
      qed
    qed
  qed
qed

section \<open>The walk over the back-links\<close>

lemma walk_from_closed:
  assumes "parents_ok pf" and "i < length (m_ClosedList pf)" and "i < n"
  shows "walk_parents n (store pf) (Some (m_ClosedList pf ! i)) = Some None"
  using assms(2,3)
proof (induction i arbitrary: n rule: less_induct)
  case (less i)
  from less.prems(2) obtain m where n: "n = Suc m" by (cases n) auto
  from assms(1) less.prems(1)
  have par: "parent_in (store pf) (take i (m_ClosedList pf)) (m_ClosedList pf ! i)"
    by (simp add: parents_ok_def)
  show ?case
  proof (cases "m_Parent (store pf ! (m_ClosedList pf ! i))")
    case None
    with n show ?thesis by simp
  next
    case (Some q)
    with par have "q \<in> set (take i (m_ClosedList pf))" by (simp add: parent_in_def)
    then obtain j where j: "j < i" "j < length (m_ClosedList pf)" and q: "q = m_ClosedList pf ! j"
      by (auto simp: in_set_conv_nth)
    from j less.prems(2) n have "j < m" by simp
    from less.IH [OF j(1,2) this] Some n q show ?thesis by simp
  qed
qed

lemma walk_from_current:
  assumes "search_inv pf" and "length (m_ClosedList pf) < n"
  shows "walk_parents n (store pf) (m_Current pf) = Some None"
proof (cases "m_Current pf")
  case None
  then show ?thesis by simp
next
  case (Some c)
  from assms(1) have p: "parents_ok pf" and cu: "current_ok pf" by (simp_all add: search_inv_def)
  from cu Some have c: "c \<in> set (m_OpenList pf) \<or> c \<in> set (m_ClosedList pf)"
    by (simp add: current_ok_def)
  show ?thesis
  proof (cases "c \<in> set (m_ClosedList pf)")
    case True
    then obtain i where i: "i < length (m_ClosedList pf)" and ci: "c = m_ClosedList pf ! i"
      by (auto simp: in_set_conv_nth)
    from i assms(2) have "i < n" by simp
    from walk_from_closed [OF p i this] Some ci show ?thesis by simp
  next
    case False
    with c have co: "c \<in> set (m_OpenList pf)" by simp
    from assms(2) obtain m where n: "n = Suc m" by (cases n) auto
    from p co have par: "parent_in (store pf) (m_ClosedList pf) c" by (simp add: parents_ok_def)
    show ?thesis
    proof (cases "m_Parent (store pf ! c)")
      case None
      with Some n show ?thesis by simp
    next
      case (Some q)
      with par have "q \<in> set (m_ClosedList pf)" by (simp add: parent_in_def)
      then obtain j where j: "j < length (m_ClosedList pf)" and q: "q = m_ClosedList pf ! j"
        by (auto simp: in_set_conv_nth)
      from j assms(2) n have "j < m" by simp
      from walk_from_closed [OF p j this] Some \<open>m_Current pf = Some c\<close> n q show ?thesis by simp
    qed
  qed
qed

section \<open>The states of the search loop\<close>

text \<open>Every state that the search loop passes through or ends in is among the reached ones.\<close>

lemma expand_reach:
  assumes "expand ex ey cur ds pf = Inr pf'" and "reach g sx sy ex ey pf"
    and "m_Current pf = Some cur" and "\<forall>d\<in>set ds. d < length m_Directions"
  shows "reach g sx sy ex ey pf'"
  using assms
proof (induction ds arbitrary: pf)
  case Nil
  then show ?case by simp
next
  case (Cons d ds)
  from Cons.prems(1) obtain pf1 where
    v: "visit_direction ex ey cur pf d = Inr pf1" and e: "expand ex ey cur ds pf1 = Inr pf'"
    by (auto split: sum.splits)
  from Cons.prems(4) have d: "d < length m_Directions" and ds: "\<forall>d\<in>set ds. d < length m_Directions"
    by simp_all
  from Cons.prems(2,3) v d have r1: "reach g sx sy ex ey pf1" by (rule at_visit)
  from visit_frame [OF v] Cons.prems(3) have "m_Current pf1 = Some cur" by simp
  from Cons.IH [OF e r1 this ds] show ?case .
qed

lemma search_loop_reach:
  assumes "search_loop n ex ey pf = Some (Inr pf')" and "reach g sx sy ex ey pf"
  shows "reach g sx sy ex ey pf'"
  using assms
proof (induction n arbitrary: pf)
  case 0
  then show ?case by (simp split: if_splits)
next
  case (Suc n)
  show ?case
  proof (cases "m_OpenList pf = []")
    case True
    with Suc.prems show ?thesis by (simp add: search_loop_empty)
  next
    case False
    let ?i = "select_lowest (store pf) (m_OpenList pf)"
    let ?cur = "m_OpenList pf ! ?i"
    show ?thesis
    proof (cases "m_X (store pf ! ?cur) = ex \<and> m_Y (store pf ! ?cur) = ey")
      case True
      with False Suc.prems(1) have "pf' = pf\<lparr>m_Current := Some ?cur\<rparr>"
        by (simp add: search_loop_goal)
      with Suc.prems(2) False show ?thesis by (simp add: at_selection)
    next
      case notend: False
      show ?thesis
      proof (cases "expand ex ey ?cur [0..<length m_Directions] (close_selected ?i pf)")
        case (Inl f)
        with search_loop_step [OF False notend, of n] Suc.prems(1) show ?thesis by simp
      next
        case (Inr pf2)
        from Suc.prems(2) False have r1: "reach g sx sy ex ey (close_selected ?i pf)"
          by (rule at_close)
        have "m_Current (close_selected ?i pf) = Some ?cur" by (simp add: close_selected_def)
        from expand_reach [OF Inr r1 this] have r2: "reach g sx sy ex ey pf2" by simp
        from search_loop_step [OF False notend, of n] Inr Suc.prems(1)
        have "search_loop n ex ey pf2 = Some (Inr pf')" by simp
        from Suc.IH [OF this r2] show ?thesis .
      qed
    qed
  qed
qed

text \<open>
  C10 at a concrete point of a search: the state after the first expansion in the
  corridor is reached, and its three nodes lie on three different cells.
\<close>

theorem no_duplicate_coordinates_witness:
  "reach corridor 2 1 3 1 tie_state \<and>
   distinct (map (\<lambda>p. (m_X (store tie_state ! p), m_Y (store tie_state ! p)))
              (m_OpenList tie_state @ m_ClosedList tie_state))"
proof -
  let ?s0 = "push_start (PathFinder_new corridor) 2 1"
  have r0: "reach corridor 2 1 3 1 ?s0" by (rule at_start)
  have ne: "m_OpenList ?s0 \<noteq> []" by (simp add: push_start_def)
  have r1: "reach corridor 2 1 3 1 (close_selected (select_lowest (store ?s0) (m_OpenList ?s0)) ?s0)"
    using r0 ne by (rule at_close)
  have c1: "m_Current (close_selected (select_lowest (store ?s0) (m_OpenList ?s0)) ?s0) = Some 0"
    by code_simp
  have v1: "visit_direction 3 1 0 (close_selected (select_lowest (store ?s0) (m_OpenList ?s0)) ?s0) 1
      = Inr half_expanded"
    by code_simp
  have r2: "reach corridor 2 1 3 1 half_expanded"
    using r1 c1 v1 by (rule at_visit) (simp add: m_Directions_def)
  have c2: "m_Current half_expanded = Some 0" by (simp add: half_expanded_def)
  have v2: "visit_direction 3 1 0 half_expanded 3 = Inr tie_state" by code_simp
  have r3: "reach corridor 2 1 3 1 tie_state"
    using r2 c2 v2 by (rule at_visit) (simp add: m_Directions_def)
  show ?thesis using r3 no_duplicate_coordinates [OF r3] by simp
qed

section \<open>Grids whose walkable cells do not touch the border\<close>

lemma visit_no_fault:
  assumes "interior (m_Grid pf) (m_X (store pf ! cur)) (m_Y (store pf ! cur))"
    and "l_I < length m_Directions"
  shows "\<exists>pf'. visit_direction ex ey cur pf l_I = Inr pf'"
proof -
  let ?c = "store pf ! cur"
  let ?fut = "\<lparr>PosX = int16 (m_X ?c + PosX (m_Directions ! l_I)),
               PosY = int16 (m_Y ?c + PosY (m_Directions ! l_I))\<rparr>"
  from assms(2) have "m_Directions ! l_I \<in> set m_Directions" by (rule nth_mem)
  with assms(1) have "in_bounds (m_Grid pf) (PosX ?fut) (PosY ?fut)" by (simp add: interior_def)
  then have "\<exists>v. CheckValidTile (m_Grid pf) ?fut = Inr v"
    by (auto simp: CheckValidTile_def grid_at_def)
  then obtain v where "CheckValidTile (m_Grid pf) ?fut = Inr v" ..
  then show ?thesis
    by (simp add: visit_direction_def Let_def split: option.splits)
qed

lemma visit_keeps_interior:
  assumes "visit_direction ex ey cur pf i = Inr pf'" and "ptrs_ok pf" and "interior_ok pf"
    and "enclosed (m_Grid pf)"
  shows "interior_ok pf'"
  using assms(1)
proof (cases rule: visit_direction_cases)
  case same
  with assms show ?thesis by simp
next
  case (update l n')
  from update(1) assms(2) have l: "l < length (store pf)" by (simp add: ptrs_ok_def)
  from update(3) have "m_X n' = m_X (store pf ! l)" "m_Y n' = m_Y (store pf ! l)"
    by (simp_all add: node_pos_def)
  with l assms(3) show ?thesis
    unfolding interior_ok_def update(2) by (auto simp: nth_list_update)
next
  case (fresh n)
  from assms(2) have old: "\<forall>p\<in>set (m_OpenList pf @ m_ClosedList pf). p < length (store pf)"
    by (simp add: ptrs_ok_def)
  from fresh(3) have "(m_X n, m_Y n) \<in> set (cell_list (m_Grid pf))" by (rule in_bounds_cell_list)
  with assms(4) fresh(5) have "interior (m_Grid pf) (m_X n) (m_Y n)"
    unfolding enclosed_def by fastforce
  with old assms(3) show ?thesis
    unfolding interior_ok_def fresh(1) by (auto simp: nth_append)
qed

lemma close_keeps_interior:
  assumes "i < length (m_OpenList pf)" and "interior_ok pf"
  shows "interior_ok (close_selected i pf)"
proof -
  from assms(1) obtain A B where
    xs: "m_OpenList pf = A @ m_OpenList pf ! i # B" and er: "erase i (m_OpenList pf) = A @ B"
    by (rule erase_split)
  define x where "x = m_OpenList pf ! i"
  from xs have xs': "m_OpenList pf = A @ x # B" by (simp add: x_def)
  show ?thesis
    using assms(2) er unfolding interior_ok_def close_selected_def x_def [symmetric]
    by (subst (asm) xs') auto
qed

lemma expand_no_fault:
  assumes "search_inv pf" and "interior_ok pf" and "enclosed (m_Grid pf)"
    and "cur \<in> set (m_ClosedList pf)" and "\<forall>d\<in>set ds. d < length m_Directions"
  shows "\<exists>pf'. expand ex ey cur ds pf = Inr pf' \<and> interior_ok pf'"
  using assms
proof (induction ds arbitrary: pf)
  case Nil
  then show ?case by simp
next
  case (Cons d ds)
  from Cons.prems(2,4) have "interior (m_Grid pf) (m_X (store pf ! cur)) (m_Y (store pf ! cur))"
    by (simp add: interior_ok_def)
  moreover from Cons.prems(5) have "d < length m_Directions" by simp
  ultimately obtain pf1 where v: "visit_direction ex ey cur pf d = Inr pf1"
    using visit_no_fault by blast
  from Cons.prems(1) have p: "ptrs_ok pf" by (simp add: search_inv_def)
  from visit_keeps_inv [OF v Cons.prems(1,4)] have i1: "search_inv pf1" .
  from visit_keeps_interior [OF v p Cons.prems(2,3)] have i2: "interior_ok pf1" .
  from visit_frame [OF v] Cons.prems(3,4)
  have "enclosed (m_Grid pf1)" and "cur \<in> set (m_ClosedList pf1)" by simp_all
  moreover from Cons.prems(5) have "\<forall>d\<in>set ds. d < length m_Directions" by simp
  ultimately obtain pf' where "expand ex ey cur ds pf1 = Inr pf'" and "interior_ok pf'"
    using Cons.IH [OF i1 i2] by blast
  with v show ?case by simp
qed

lemma search_loop_no_fault:
  assumes "search_inv pf" and "interior_ok pf" and "enclosed (m_Grid pf)"
  shows "search_loop n ex ey pf \<noteq> Some (Inl f)"
  using assms
proof (induction n arbitrary: pf)
  case 0
  then show ?case by simp
next
  case (Suc n)
  show ?case
  proof (cases "m_OpenList pf = []")
    case True
    then show ?thesis by (simp add: search_loop_empty)
  next
    case False
    let ?i = "select_lowest (store pf) (m_OpenList pf)"
    let ?cur = "m_OpenList pf ! ?i"
    from False have i: "?i < length (m_OpenList pf)" by (rule select_lowest_less)
    show ?thesis
    proof (cases "m_X (store pf ! ?cur) = ex \<and> m_Y (store pf ! ?cur) = ey")
      case True
      with False show ?thesis by (simp add: search_loop_goal)
    next
      case notend: False
      have inv1: "search_inv (close_selected ?i pf)" using i Suc.prems(1) by (rule close_keeps_inv)
      have int1: "interior_ok (close_selected ?i pf)" using i Suc.prems(2) by (rule close_keeps_interior)
      have cur: "?cur \<in> set (m_ClosedList (close_selected ?i pf))"
        by (simp add: close_selected_def)
      from Suc.prems(3) have enc1: "enclosed (m_Grid (close_selected ?i pf))"
        by (simp add: close_selected_def)
      have "\<forall>d\<in>set [0..<length m_Directions]. d < length m_Directions" by simp
      from expand_no_fault [OF inv1 int1 enc1 cur this] obtain pf2 where
        e: "expand ex ey ?cur [0..<length m_Directions] (close_selected ?i pf) = Inr pf2"
        and int2: "interior_ok pf2"
        by blast
      from expand_keeps_inv [OF e inv1 cur] enc1
      have inv2: "search_inv pf2" and enc2: "enclosed (m_Grid pf2)" by simp_all
      from Suc.IH [OF inv2 int2 enc2] search_loop_step [OF False notend, of n] e
      show ?thesis by simp
    qed
  qed
qed

lemma start_interior:
  "interior g sx sy \<Longrightarrow> interior_ok (push_start (PathFinder_new g) sx sy)"
  by (simp add: interior_ok_def push_start_def PathFinder_new_def new_Node_def)


section \<open>Outcome of the search and of the call\<close>

text \<open>
  C8 fails on the code, by the defect of C7. On the room of one row and two columns from
  (0, 0) to (1, 0), and on the open room from (0, 0) to (4, 4), start and end in bounds,
  the first run of the loop body looks a neighbour up outside the grid: the loop has
  neither reached the end nor emptied the open vector there, and what the C++ code does
  after this read is undefined, so that the size of the grid bounds nothing.
\<close>

theorem search_leaves_grid:
  "in_bounds two_cells 0 0 \<and> in_bounds two_cells 1 0 \<and>
   search_loop 3 1 0 (push_start (PathFinder_new two_cells) 0 0) = Some (Inl OutOfRange) \<and>
   in_bounds open_room 0 0 \<and> in_bounds open_room 4 4 \<and>
   search_loop 26 4 4 (push_start (PathFinder_new open_room) 0 0) = Some (Inl OutOfRange)"
  by code_simp

text \<open>
  Where no grid access is out of range the loop is bounded by the size of the grid. For
  every grid and every in-bounds start, the modelled search loop ends within
  \<open>grid_cells g + 1\<close> runs of its body (any larger bound gives a result as well): with
  the open vector empty, with the current node on the end coordinate, or at an
  out-of-range grid access; the last does not occur when the grid is enclosed and the
  start is interior.
\<close>

theorem search_loop_bounded:
  assumes "in_bounds g sx sy" and "grid_cells g < n"
  shows "\<exists>r. search_loop n ex ey (push_start (PathFinder_new g) sx sy) = Some r \<and>
    (r = Inl OutOfRange \<or>
     (\<exists>pf. r = Inr pf \<and>
        (m_OpenList pf = [] \<or>
         (\<exists>c. m_Current pf = Some c \<and> m_X (store pf ! c) = ex \<and> m_Y (store pf ! c) = ey)))) \<and>
    (enclosed g \<and> interior g sx sy \<longrightarrow> r \<noteq> Inl OutOfRange)"
proof -
  let ?s0 = "push_start (PathFinder_new g) sx sy"
  from assms(1) have inv: "search_inv ?s0" by (rule start_inv)
  have nf: "search_loop n ex ey ?s0 \<noteq> Some (Inl OutOfRange)" if "enclosed g \<and> interior g sx sy"
  proof -
    from that have "interior_ok ?s0" by (simp add: start_interior)
    moreover from that have "enclosed (m_Grid ?s0)" by (simp add: push_start_def PathFinder_new_def)
    ultimately show ?thesis using inv by (intro search_loop_no_fault)
  qed
  have "m_Grid ?s0 = g" "m_ClosedList ?s0 = []" by (simp_all add: push_start_def PathFinder_new_def)
  with assms(2) have "grid_cells (m_Grid ?s0) < n + length (m_ClosedList ?s0)" by simp
  from search_loop_ends [OF inv this] obtain r where r: "search_loop n ex ey ?s0 = Some r" ..
  show ?thesis
  proof (cases r)
    case (Inl f)
    then have "r = Inl OutOfRange" by (cases f) simp
    with r nf show ?thesis by auto
  next
    case (Inr pf)
    with r have "search_loop n ex ey ?s0 = Some (Inr pf)" by simp
    from search_loop_state [OF this inv] r Inr show ?thesis by simp
  qed
qed

text \<open>
  The bound in the corridor (15 cells): from (1, 1) the loop ends at the end (3, 1), and
  for the unreachable end (0, 0) it ends with the open vector empty.
\<close>

theorem search_loop_bounded_witness:
  "in_bounds corridor 1 1 \<and> grid_cells corridor < 16 \<and> enclosed corridor \<and> interior corridor 1 1 \<and>
   search_loop 16 3 1 (push_start (PathFinder_new corridor) 1 1) = Some (Inr corridor_goal) \<and>
   search_loop 16 0 0 (push_start (PathFinder_new corridor) 1 1) = Some (Inr corridor_exhausted)"
proof -
  have b: "in_bounds corridor 1 1" by code_simp
  have c: "grid_cells corridor < 16" by code_simp
  have g: "search_loop 16 3 1 (push_start (PathFinder_new corridor) 1 1) = Some (Inr corridor_goal)"
    by code_simp
  have e: "search_loop 16 0 0 (push_start (PathFinder_new corridor) 1 1) =
      Some (Inr corridor_exhausted)"
    by code_simp
  have i: "enclosed corridor \<and> interior corridor 1 1" by code_simp
  show ?thesis
    using b c i g e search_loop_bounded [OF b c, of 3 1] search_loop_bounded [OF b c, of 0 0]
    by simp
qed

text \<open>
  C1 (as amended): for every grid and every in-bounds start, \<open>CalculatePath\<close> ends,
  and unless a grid access was out of range it ends normally in both cases, whether the
  search loop stopped on the end coordinate or with the open vector empty: the
  back-links are walked from the last selected node to the null parent without any cell
  being recorded or reversed, so that \<open>m_Current\<close> is null afterwards, and every node
  of the two vectors is destroyed. The function returns no value; the back-links left
  for the caller give the empty sequence in both cases. On an enclosed grid with an
  interior start no grid access is out of range.
\<close>

theorem CalculatePath_outcome:
  assumes "in_bounds g sx sy" and "grid_cells g < fuel"
  shows
    "((search_loop fuel ex ey (push_start (PathFinder_new g) sx sy) = Some (Inl OutOfRange) \<and>
       CalculatePath fuel (PathFinder_new g) sx sy ex ey = Some (Inl OutOfRange)) \<or>
      (\<exists>pf1. search_loop fuel ex ey (push_start (PathFinder_new g) sx sy) = Some (Inr pf1) \<and>
         (m_OpenList pf1 = [] \<or>
          (\<exists>c. m_Current pf1 = Some c \<and> m_X (store pf1 ! c) = ex \<and> m_Y (store pf1 ! c) = ey)) \<and>
         CalculatePath fuel (PathFinder_new g) sx sy ex ey =
           Some (Inr (pf1\<lparr>m_Current := None, freed := m_ClosedList pf1 @ m_OpenList pf1\<rparr>)) \<and>
         reconstructed_path
           (pf1\<lparr>m_Current := None, freed := m_ClosedList pf1 @ m_OpenList pf1\<rparr>) = [])) \<and>
     (enclosed g \<and> interior g sx sy \<longrightarrow>
        CalculatePath fuel (PathFinder_new g) sx sy ex ey \<noteq> Some (Inl OutOfRange))"
proof -
  let ?s0 = "push_start (PathFinder_new g) sx sy"
  from assms(1) have inv: "search_inv ?s0" by (rule start_inv)
  have s0: "m_Grid ?s0 = g" "m_ClosedList ?s0 = []" "freed ?s0 = []"
    by (simp_all add: push_start_def PathFinder_new_def)
  with assms(2) have "grid_cells (m_Grid ?s0) < fuel + length (m_ClosedList ?s0)" by simp
  from search_loop_ends [OF inv this] obtain r where r: "search_loop fuel ex ey ?s0 = Some r" ..
  have nf: "search_loop fuel ex ey ?s0 \<noteq> Some (Inl OutOfRange)"
    if "enclosed g \<and> interior g sx sy"
  proof -
    from that have "interior_ok ?s0" by (simp add: start_interior)
    moreover from that s0 have "enclosed (m_Grid ?s0)" by simp
    ultimately show ?thesis using inv by (intro search_loop_no_fault)
  qed
  show ?thesis
  proof (cases r)
    case (Inl f)
    then have "r = Inl OutOfRange" by (cases f) simp
    with r nf show ?thesis by (auto simp: CalculatePath_def)
  next
    case (Inr pf1)
    with r have sl: "search_loop fuel ex ey ?s0 = Some (Inr pf1)" by simp
    from search_loop_state [OF sl inv] s0
    have inv1: "search_inv pf1" and g1: "m_Grid pf1 = g" and f1: "freed pf1 = []"
      and "exit": "m_OpenList pf1 = [] \<or>
        (\<exists>c. m_Current pf1 = Some c \<and> m_X (store pf1 ! c) = ex \<and> m_Y (store pf1 ! c) = ey)"
      by simp_all
    from closed_bounded [OF inv1] g1 assms(2) have "length (m_ClosedList pf1) < fuel" by simp
    with inv1 have w: "walk_parents fuel (store pf1) (m_Current pf1) = Some None"
      by (rule walk_from_current)
    from sl w f1 have cp: "CalculatePath fuel (PathFinder_new g) sx sy ex ey =
        Some (Inr (pf1\<lparr>m_Current := None, freed := m_ClosedList pf1 @ m_OpenList pf1\<rparr>))"
      by (simp add: CalculatePath_def CleanUp_def)
    have rp: "reconstructed_path
        (pf1\<lparr>m_Current := None, freed := m_ClosedList pf1 @ m_OpenList pf1\<rparr>) = []"
      by (simp add: reconstructed_path_def)
    from sl "exit" cp rp have
      "\<exists>pf1. search_loop fuel ex ey ?s0 = Some (Inr pf1) \<and>
         (m_OpenList pf1 = [] \<or>
          (\<exists>c. m_Current pf1 = Some c \<and> m_X (store pf1 ! c) = ex \<and> m_Y (store pf1 ! c) = ey)) \<and>
         CalculatePath fuel (PathFinder_new g) sx sy ex ey =
           Some (Inr (pf1\<lparr>m_Current := None, freed := m_ClosedList pf1 @ m_OpenList pf1\<rparr>)) \<and>
         reconstructed_path
           (pf1\<lparr>m_Current := None, freed := m_ClosedList pf1 @ m_OpenList pf1\<rparr>) = []"
      by blast
    moreover from cp have "CalculatePath fuel (PathFinder_new g) sx sy ex ey \<noteq> Some (Inl OutOfRange)"
      by simp
    ultimately show ?thesis by blast
  qed
qed

text \<open>
  The amended C1 in the corridor, for a search that reaches the end and for one that
  exhausts the open vector.
\<close>

theorem CalculatePath_outcome_witness:
  "in_bounds corridor 1 1 \<and> grid_cells corridor < 16 \<and>
   CalculatePath 16 (PathFinder_new corridor) 1 1 3 1 =
     Some (Inr (corridor_goal\<lparr>m_Current := None, freed := [0, 1, 2]\<rparr>)) \<and>
   CalculatePath 16 (PathFinder_new corridor) 1 1 0 0 =
     Some (Inr (corridor_exhausted\<lparr>m_Current := None, freed := [0, 1, 2]\<rparr>))"
proof -
  have b: "in_bounds corridor 1 1" by code_simp
  have c: "grid_cells corridor < 16" by code_simp
  have g: "search_loop 16 3 1 (push_start (PathFinder_new corridor) 1 1) = Some (Inr corridor_goal)"
    by code_simp
  have e: "search_loop 16 0 0 (push_start (PathFinder_new corridor) 1 1) =
      Some (Inr corridor_exhausted)"
    by code_simp
  from CalculatePath_outcome [OF b c, of 3 1] g
  have 1: "CalculatePath 16 (PathFinder_new corridor) 1 1 3 1 =
     Some (Inr (corridor_goal\<lparr>m_Current := None, freed := [0, 1, 2]\<rparr>))"
    by (simp add: corridor_goal_def)
  from CalculatePath_outcome [OF b c, of 0 0] e
  have 2: "CalculatePath 16 (PathFinder_new corridor) 1 1 0 0 =
     Some (Inr (corridor_exhausted\<lparr>m_Current := None, freed := [0, 1, 2]\<rparr>))"
    by (simp add: corridor_exhausted_def)
  from b c 1 2 show ?thesis by simp
qed

text \<open>
  C1 as stated fails: on \<open>bend\<close> from (1, 3) to (3, 2) the search loop stops on the
  node of the end, whose back-links, reversed, are the four cells from start to end;
  after \<open>CalculatePath\<close> the sequence left for the caller is empty.
\<close>

theorem goal_reached_no_path:
  "search_loop 5 3 2 (push_start (PathFinder_new bend) 1 3) =
     Some (Inr (bend_state\<lparr>m_Current := Some 4\<rparr>)) \<and>
   m_X (store bend_state ! 4) = 3 \<and> m_Y (store bend_state ! 4) = 2 \<and>
   reconstructed_path (bend_state\<lparr>m_Current := Some 4\<rparr>) = [(1, 3), (1, 2), (2, 1), (3, 2)] \<and>
   map_option (map_sum id reconstructed_path) (CalculatePath 5 (PathFinder_new bend) 1 3 3 2) =
     Some (Inr [])"
  by code_simp


end
